theory Spec2Isabelle
  imports Complex_Main "HOL-Library.Multiset"
begin

section \<open>Errors\<close>

text \<open>
  The exceptions that the functions of \<^verbatim>\<open>c19/text_preprocessing.py\<close> can raise or let
  through. \<open>OperationalError\<close> is \<^verbatim>\<open>sqlite3.OperationalError\<close>; \<open>OtherError\<close> stands for
  any exception class that the module never names.
\<close>

datatype error =
    TypeError
  | ValueError
  | IndexError
  | AssertionError
  | OperationalError
  | OtherError string

section \<open>Text normalizer\<close>

text \<open>
  \<^verbatim>\<open>preprocess_text\<close> calls five capabilities that live outside the module: NLTK's
  \<^verbatim>\<open>sent_tokenize\<close>, \<^verbatim>\<open>str.lower\<close>, the tokenizer \<^verbatim>\<open>RegexpTokenizer(r"\w+")\<close>, the
  English stop-word list and the Snowball stemmer. They are fields of a record, so that
  every statement proved for an arbitrary record holds for the real ones.
\<close>

record nlp =
  sent_tokenize :: "string \<Rightarrow> string list"
  str_lower :: "string \<Rightarrow> string"
  word_tokenize :: "string \<Rightarrow> string list"
  stop_words_nltk :: "string list"
  stem :: "string \<Rightarrow> string"

definition filter_stopwords :: "string list \<Rightarrow> string list \<Rightarrow> string list" where
  "filter_stopwords stop_words sentence = [word \<leftarrow> sentence. word \<notin> set stop_words]"

definition do_stemming :: "(string \<Rightarrow> string) \<Rightarrow> string list \<Rightarrow> string list" where
  "do_stemming stem_function sentence = [stem_function word. word \<leftarrow> sentence]"

text \<open>
  \<^verbatim>\<open>re.compile(r"[a-z]").match(word)\<close>: the pattern is anchored at the start of the word
  and asks for one character between \<open>a\<close> (code 97) and \<open>z\<close> (code 122).
\<close>

definition letter_pattern_match :: "string \<Rightarrow> bool" where
  "letter_pattern_match word =
     (case word of
        [] \<Rightarrow> False
      | c # _ \<Rightarrow> (97::nat) \<le> of_char c \<and> of_char c \<le> (122::nat))"

definition remove_numeric_words :: "string list \<Rightarrow> string list" where
  "remove_numeric_words sentence = [word \<leftarrow> sentence. letter_pattern_match word]"

definition preprocess_text ::
  "nlp \<Rightarrow> string \<Rightarrow> bool \<Rightarrow> bool \<Rightarrow> string list list \<times> string list" where
  "preprocess_text caps text stem_words remove_num =
     (let sentences_raw = sent_tokenize caps text;
          lowered = [str_lower caps sentence. sentence \<leftarrow> sentences_raw];
          tokenized = [word_tokenize caps sentence. sentence \<leftarrow> lowered];
          unstopped = [filter_stopwords (stop_words_nltk caps) sentence. sentence \<leftarrow> tokenized];
          stemmed = (if stem_words
                     then [do_stemming (stem caps) sentence. sentence \<leftarrow> unstopped]
                     else unstopped);
          alphabetic = (if remove_num
                        then [remove_numeric_words sentence. sentence \<leftarrow> stemmed]
                        else stemmed);
          sentences = [[word \<leftarrow> sentence. length word > 1].
                       sentence \<leftarrow> [s \<leftarrow> alphabetic. s \<noteq> []]]
      in (sentences, sentences_raw))"

text \<open>An alphabetic character, for texts in ASCII: a letter of either case.\<close>

definition is_alphabetic :: "char \<Rightarrow> bool" where
  "is_alphabetic c =
     (((65::nat) \<le> of_char c \<and> of_char c \<le> (90::nat)) \<or>
      ((97::nat) \<le> of_char c \<and> of_char c \<le> (122::nat)))"

definition starts_alphabetic :: "string \<Rightarrow> bool" where
  "starts_alphabetic word = (case word of [] \<Rightarrow> False | c # _ \<Rightarrow> is_alphabetic c)"

subsection \<open>Concrete capabilities for ASCII text\<close>

text \<open>
  Executable stand-ins for the five capabilities, used to run the model on concrete
  texts. On ASCII input \<open>ascii_lower\<close> is \<^verbatim>\<open>str.lower\<close> and \<open>regexp_tokenize\<close> is
  \<^verbatim>\<open>re.findall(r"\w+", s)\<close>. \<open>split_sentences\<close> ends a sentence after each full stop,
  question mark or exclamation mark and skips the blanks before the next one, which is
  what \<^verbatim>\<open>sent_tokenize\<close> answers on the plain texts evaluated below. The stop words are
  an excerpt of NLTK's English list; the stemmer is left as the identity and is only
  reached with \<open>stem_words\<close> set.
\<close>

definition ascii_lower_char :: "char \<Rightarrow> char" where
  "ascii_lower_char c =
     (if (65::nat) \<le> of_char c \<and> of_char c \<le> (90::nat)
      then char_of (of_char c + (32::nat)) else c)"

definition ascii_lower :: "string \<Rightarrow> string" where
  "ascii_lower s = map ascii_lower_char s"

definition is_word_char :: "char \<Rightarrow> bool" where
  "is_word_char c =
     (let n = (of_char c :: nat)
      in (48 \<le> n \<and> n \<le> 57) \<or> (65 \<le> n \<and> n \<le> 90) \<or> n = 95 \<or> (97 \<le> n \<and> n \<le> 122))"

fun regexp_tokens :: "string \<Rightarrow> string \<Rightarrow> string list" where
  "regexp_tokens cur [] = (if cur = [] then [] else [cur])"
| "regexp_tokens cur (c # cs) =
     (if is_word_char c then regexp_tokens (cur @ [c]) cs
      else if cur = [] then regexp_tokens [] cs
      else cur # regexp_tokens [] cs)"

definition regexp_tokenize :: "string \<Rightarrow> string list" where
  "regexp_tokenize s = regexp_tokens [] s"

definition is_sentence_end :: "char \<Rightarrow> bool" where
  "is_sentence_end c = (c = CHR ''.'' \<or> c = CHR ''?'' \<or> c = CHR ''!'')"

fun sentences_from :: "string \<Rightarrow> string \<Rightarrow> string list" where
  "sentences_from cur [] = (if cur = [] then [] else [cur])"
| "sentences_from cur (c # cs) =
     (if is_sentence_end c then (cur @ [c]) # sentences_from [] cs
      else if cur = [] \<and> c = CHR '' '' then sentences_from [] cs
      else sentences_from (cur @ [c]) cs)"

definition split_sentences :: "string \<Rightarrow> string list" where
  "split_sentences text = sentences_from [] text"

definition english_stop_words :: "string list" where
  "english_stop_words =
     [''i'', ''me'', ''my'', ''we'', ''our'', ''you'', ''he'', ''she'', ''it'', ''its'',
      ''they'', ''them'', ''what'', ''which'', ''who'', ''this'', ''that'', ''these'',
      ''those'', ''am'', ''is'', ''are'', ''was'', ''were'', ''be'', ''been'', ''have'',
      ''has'', ''had'', ''do'', ''does'', ''did'', ''a'', ''an'', ''the'', ''and'', ''but'',
      ''if'', ''or'', ''as'', ''of'', ''at'', ''by'', ''for'', ''with'', ''to'', ''from'',
      ''in'', ''out'', ''on'', ''off'', ''no'', ''not'', ''so'', ''s'', ''t'', ''d'', ''m'',
      ''o'', ''y'']"

definition ascii_nlp :: nlp where
  "ascii_nlp =
     \<lparr> sent_tokenize = split_sentences,
       str_lower = ascii_lower,
       word_tokenize = regexp_tokenize,
       stop_words_nltk = english_stop_words,
       stem = id \<rparr>"

section \<open>Section sampler\<close>

text \<open>
  \<^verbatim>\<open>random.shuffle\<close> draws from the process-wide generator. The generator is a record of
  the raw draws still to come and the number already consumed; \<^verbatim>\<open>_randbelow(n)\<close> takes the
  next draw modulo \<open>n\<close>. The standard library's loop is
  \<^verbatim>\<open>for i in reversed(range(1, len(x))): j = randbelow(i + 1); x[i], x[j] = x[j], x[i]\<close>.
\<close>

record rng =
  draws :: "nat \<Rightarrow> nat"
  drawn :: nat

definition randbelow :: "nat \<Rightarrow> rng \<Rightarrow> nat \<times> rng" where
  "randbelow n g = (draws g (drawn g) mod n, g\<lparr>drawn := Suc (drawn g)\<rparr>)"

fun shuffle_from :: "nat \<Rightarrow> 'a list \<Rightarrow> rng \<Rightarrow> 'a list \<times> rng" where
  "shuffle_from 0 x g = (x, g)"
| "shuffle_from (Suc k) x g =
     (let i = Suc k;
          (j, g') = randbelow (i + 1) g
      in shuffle_from k (x[i := x ! j, j := x ! i]) g')"

definition shuffle :: "'a list \<Rightarrow> rng \<Rightarrow> 'a list \<times> rng" where
  "shuffle x g = shuffle_from (length x - 1) x g"

text \<open>
  Lines 107 to 110 of the worker: zip the two sequences, shuffle, keep the first twenty
  and unzip. \<^verbatim>\<open>zip(*[])\<close> yields nothing, so unpacking an empty selection into two names
  raises \<^verbatim>\<open>ValueError\<close>.
\<close>

definition sample_body ::
  "string list list \<Rightarrow> string list \<Rightarrow> rng \<Rightarrow>
     (error + string list list \<times> string list) \<times> rng" where
  "sample_body pp_sentences sentences_raw g =
     (let temp_list = zip pp_sentences sentences_raw;
          (shuffled, g') = shuffle temp_list g;
          selected = take 20 shuffled
      in if selected = [] then (Inl ValueError, g')
         else (Inr (map fst selected, map snd selected), g'))"

section \<open>Batch worker\<close>

text \<open>
  An article is the tuple \<open>(id, title, abstract, body)\<close>; the three texts may be
  \<^verbatim>\<open>None\<close>. A row is the five-element list appended at line 126. \<open>TokensJson\<close> stands
  for the string \<^verbatim>\<open>json.dumps(pp_sentence)\<close> and \<open>VectorJson\<close> for the string
  \<^verbatim>\<open>json.dumps(tuple(map(str, vector)))\<close>; \<open>Null\<close> is \<^verbatim>\<open>None\<close>.
\<close>

type_synonym article = "string \<times> string option \<times> string option \<times> string option"

datatype 'v cell = Text string | TokensJson "string list" | VectorJson "'v list" | Null

type_synonym 'v row = "'v cell list"

text \<open>
  \<^verbatim>\<open>embedding_model.compute_sentence_vector\<close> is a capability of the caller: it raises
  (\<open>Inl\<close>), returns \<^verbatim>\<open>None\<close> (\<open>Inr None\<close>) or returns a vector.
\<close>

type_synonym 'v embedding_model = "string list \<Rightarrow> error + 'v list option"

text \<open>
  Lines 114 to 120. The call and \<^verbatim>\<open>map(str, ...)\<close> stand before the \<^verbatim>\<open>try\<close>: an exception
  of the model leaves the function, and so does the \<^verbatim>\<open>TypeError\<close> of iterating over
  \<^verbatim>\<open>None\<close>.
\<close>

definition sentence_vector ::
  "'v embedding_model option \<Rightarrow> string list \<Rightarrow> error + 'v cell" where
  "sentence_vector embedding_model pp_sentence =
     (case embedding_model of
        Some model \<Rightarrow>
          (case model pp_sentence of
             Inl e \<Rightarrow> Inl e
           | Inr None \<Rightarrow> Inl TypeError
           | Inr (Some v) \<Rightarrow> Inr (VectorJson v))
      | None \<Rightarrow> Inr Null)"

text \<open>
  The loop of lines 111 to 128. Building the row and appending it (the body of the
  \<^verbatim>\<open>try\<close>) cannot raise, so the \<^verbatim>\<open>except TypeError\<close> branch has no case here.
\<close>

fun emit_rows ::
  "'v embedding_model option \<Rightarrow> string \<Rightarrow> string \<Rightarrow> (string list \<times> string) list \<Rightarrow>
     'v row list \<Rightarrow> error + 'v row list" where
  "emit_rows embedding_model article_id section [] articles_rows = Inr articles_rows"
| "emit_rows embedding_model article_id section ((pp_sentence, raw_sentence) # rest)
       articles_rows =
     (if pp_sentence \<noteq> [] then
        (case sentence_vector embedding_model pp_sentence of
           Inl e \<Rightarrow> Inl e
         | Inr vector \<Rightarrow>
             emit_rows embedding_model article_id section rest
               (articles_rows @
                  [[Text article_id, Text section, Text raw_sentence,
                    TokensJson pp_sentence, vector]]))
      else emit_rows embedding_model article_id section rest articles_rows)"

definition process_section ::
  "nlp \<Rightarrow> 'v embedding_model option \<Rightarrow> bool \<Rightarrow> bool \<Rightarrow> string \<Rightarrow> string \<Rightarrow>
     string option \<Rightarrow> 'v row list \<Rightarrow> rng \<Rightarrow> (error + 'v row list) \<times> rng" where
  "process_section caps embedding_model stem_words remove_num article_id section data
       articles_rows g =
     (case data of
        None \<Rightarrow> (Inr articles_rows, g)
      | Some text \<Rightarrow>
          (let (pp_sentences, sentences_raw) =
                 preprocess_text caps text stem_words remove_num
           in if length pp_sentences > 0 then
                (case (if section = ''body''
                       then sample_body pp_sentences sentences_raw g
                       else (Inr (pp_sentences, sentences_raw), g)) of
                   (Inl e, g') \<Rightarrow> (Inl e, g')
                 | (Inr (pps, raws), g') \<Rightarrow>
                     (emit_rows embedding_model article_id section (zip pps raws)
                        articles_rows, g'))
              else (Inr articles_rows, g)))"

fun process_sections ::
  "nlp \<Rightarrow> 'v embedding_model option \<Rightarrow> bool \<Rightarrow> bool \<Rightarrow> string \<Rightarrow>
     (string \<times> string option) list \<Rightarrow> 'v row list \<Rightarrow> rng \<Rightarrow> (error + 'v row list) \<times> rng" where
  "process_sections caps embedding_model stem_words remove_num article_id [] articles_rows g =
     (Inr articles_rows, g)"
| "process_sections caps embedding_model stem_words remove_num article_id
       ((section, data) # rest) articles_rows g =
     (case process_section caps embedding_model stem_words remove_num article_id section data
             articles_rows g of
        (Inl e, g') \<Rightarrow> (Inl e, g')
      | (Inr rows', g') \<Rightarrow>
          process_sections caps embedding_model stem_words remove_num article_id rest rows' g')"

fun process_articles ::
  "nlp \<Rightarrow> 'v embedding_model option \<Rightarrow> bool \<Rightarrow> bool \<Rightarrow> article list \<Rightarrow> 'v row list \<Rightarrow>
     rng \<Rightarrow> (error + 'v row list) \<times> rng" where
  "process_articles caps embedding_model stem_words remove_num [] articles_rows g =
     (Inr articles_rows, g)"
| "process_articles caps embedding_model stem_words remove_num
       ((article_id, article_title, article_abstract, article_body) # rest) articles_rows g =
     (case process_sections caps embedding_model stem_words remove_num article_id
             (zip [''title'', ''abstract'', ''body'']
                  [article_title, article_abstract, article_body])
             articles_rows g of
        (Inl e, g') \<Rightarrow> (Inl e, g')
      | (Inr rows', g') \<Rightarrow>
          process_articles caps embedding_model stem_words remove_num rest rows' g')"

type_synonym 'v batch_args = "article list \<times> 'v embedding_model option \<times> bool \<times> bool"

text \<open>The body of \<^verbatim>\<open>pre_process_batch_of_articles\<close>, without its decorator.\<close>

definition batch_rows ::
  "nlp \<Rightarrow> 'v batch_args \<Rightarrow> rng \<Rightarrow> (error + 'v row list) \<times> rng" where
  "batch_rows caps args g =
     (case args of (batch, embedding_model, stem_words, remove_num) \<Rightarrow>
        process_articles caps embedding_model stem_words remove_num batch [] g)"

subsection \<open>The retry decorator\<close>

text \<open>
  Modelled from the spec: the decorator \<^verbatim>\<open>retry\<close> comes from a package that is not among
  the sources. The spec describes an explicit bounded-retry wrapper around the operation,
  parameterised by exception kind, maximal number of attempts and delay: an attempt that
  raises the named kind is repeated after the delay while attempts remain, the last such
  exception is raised, and any other exception is not caught. The delay is multiplied by
  \<open>backoff\<close> after each sleep; line 73 leaves the factor at its default of one. Each
  attempt runs on the state the previous one left, and the trace records the attempts and
  the sleeps in order.
\<close>

datatype retry_event = Returned | Raised error | Slept nat

fun retry_internal ::
  "(error \<Rightarrow> bool) \<Rightarrow> nat \<Rightarrow> nat \<Rightarrow> nat \<Rightarrow> ('s \<Rightarrow> (error + 'a) \<times> 's) \<Rightarrow> 's \<Rightarrow>
     retry_event list \<Rightarrow> (error + 'a option) \<times> 's \<times> retry_event list" where
  "retry_internal exceptions 0 delay backoff f s trace = (Inr None, s, trace)"
| "retry_internal exceptions (Suc tries) delay backoff f s trace =
     (case f s of
        (Inr r, s') \<Rightarrow> (Inr (Some r), s', trace @ [Returned])
      | (Inl e, s') \<Rightarrow>
          if exceptions e then
            (if tries = 0 then (Inl e, s', trace @ [Raised e])
             else retry_internal exceptions tries (delay * backoff) backoff f s'
                    (trace @ [Raised e, Slept delay]))
          else (Inl e, s', trace @ [Raised e]))"

text \<open>Line 73: \<^verbatim>\<open>@retry(sqlite3.OperationalError, tries=5, delay=2)\<close>.\<close>

definition retry_operational ::
  "('s \<Rightarrow> (error + 'a) \<times> 's) \<Rightarrow> 's \<Rightarrow> (error + 'a option) \<times> 's \<times> retry_event list" where
  "retry_operational f s = retry_internal (\<lambda>e. e = OperationalError) 5 2 1 f s []"

text \<open>
  The attempts of an operation \<open>f\<close> started in state \<open>s\<close>, counted from zero: each
  attempt runs on the state the one before it left. \<open>attempt_outcome f s k\<close> is what the
  operation itself does on attempt \<open>k\<close>, raise or return, whatever a wrapper makes of it.
\<close>

definition attempt_state :: "('s \<Rightarrow> (error + 'a) \<times> 's) \<Rightarrow> 's \<Rightarrow> nat \<Rightarrow> 's" where
  "attempt_state f s k = ((\<lambda>s'. snd (f s')) ^^ k) s"

definition attempt_outcome :: "('s \<Rightarrow> (error + 'a) \<times> 's) \<Rightarrow> 's \<Rightarrow> nat \<Rightarrow> error + 'a" where
  "attempt_outcome f s k = fst (f (attempt_state f s k))"

definition pre_process_batch_of_articles ::
  "nlp \<Rightarrow> 'v batch_args \<Rightarrow> rng \<Rightarrow> (error + 'v row list option) \<times> rng \<times> retry_event list" where
  "pre_process_batch_of_articles caps args g = retry_operational (batch_rows caps args) g"

text \<open>
  The shape of a row: five cells, the second one a section name, the fourth one the
  serialised tokens of a sentence that has at least one, the fifth one \<open>Null\<close> exactly
  when the worker was given no embedding model.
\<close>

definition row_shape :: "'v embedding_model option \<Rightarrow> 'v row \<Rightarrow> bool" where
  "row_shape embedding_model row =
     (length row = 5
      \<and> row ! 1 \<in> {Text ''title'', Text ''abstract'', Text ''body''}
      \<and> (\<exists>tokens. row ! 3 = TokensJson tokens \<and> tokens \<noteq> [])
      \<and> (row ! 4 = Null \<longleftrightarrow> embedding_model = None))"

section \<open>Chunking\<close>

text \<open>
  \<^verbatim>\<open>range(ndx, stop, step)\<close> for a positive step, as the loop that visits its elements.
\<close>

function py_range :: "nat \<Rightarrow> nat \<Rightarrow> nat \<Rightarrow> nat list" where
  "py_range ndx stop step =
     (if step = 0 \<or> stop \<le> ndx then [] else ndx # py_range (ndx + step) stop step)"
  by pat_completeness auto
termination
  by (relation "measure (\<lambda>(ndx, stop, step). stop - ndx)") auto

declare py_range.simps [simp del]

text \<open>The slice \<^verbatim>\<open>xs[lo:hi]\<close> for indices that are not negative.\<close>

definition slice :: "'a list \<Rightarrow> nat \<Rightarrow> nat \<Rightarrow> 'a list" where
  "slice xs lo hi = take (hi - lo) (drop lo xs)"

text \<open>
  \<^verbatim>\<open>range\<close> raises \<^verbatim>\<open>ValueError\<close> for a step of zero, and is empty for a negative step
  from \<open>0\<close> to a length.
\<close>

definition split_into_chunks :: "'a list \<Rightarrow> int \<Rightarrow> error + 'a list list" where
  "split_into_chunks iterable chunks_size =
     (let total_size = length iterable
      in if chunks_size = 0 then Inl ValueError
         else if chunks_size < 0 then Inr []
         else Inr [slice iterable ndx (min (ndx + nat chunks_size) total_size).
                   ndx \<leftarrow> py_range 0 total_size (nat chunks_size)])"

section \<open>Pipeline driver\<close>

text \<open>
  The world the driver acts on: the databases by path, and the trace of what the run has
  done so far. A path is a file exactly when it has a database. The messages carry the
  counts that the driver prints; elapsed times are left out.
\<close>

record 'v database =
  articles_table :: "article list"
  sentences_table :: "'v row list"

datatype message =
    DbWillBeUsed string
  | FilesToPreprocess nat nat nat
  | TookPreprocess nat
  | TookInsert nat string

datatype event =
    Printed message
  | LoadedArticles string
  | WorkerRan nat
  | InsertedRows string string nat

record 'v world =
  files :: "string \<rightharpoonup> 'v database"
  events :: "event list"

definition isfile :: "'v world \<Rightarrow> string \<Rightarrow> bool" where
  "isfile w db_path = (files w db_path \<noteq> None)"

definition print_message :: "message \<Rightarrow> 'v world \<Rightarrow> 'v world" where
  "print_message m w = w\<lparr>events := events w @ [Printed m]\<rparr>"

text \<open>
  Modelled from the spec: \<^verbatim>\<open>get_all_articles_data\<close> of \<^verbatim>\<open>c19.database_utilities\<close> is not
  among the sources. The spec's input collaborator fetches all records as
  \<open>(id, title, abstract, body)\<close> tuples, read-only; a load that fails is fatal and writes
  nothing.
\<close>

definition get_all_articles_data ::
  "string \<Rightarrow> 'v world \<Rightarrow> (error + article list) \<times> 'v world" where
  "get_all_articles_data db_path w =
     (case files w db_path of
        None \<Rightarrow> (Inl OperationalError, w)
      | Some db \<Rightarrow> (Inr (articles_table db), w\<lparr>events := events w @ [LoadedArticles db_path]\<rparr>))"

text \<open>
  Modelled from the spec: \<^verbatim>\<open>insert_rows\<close> of \<^verbatim>\<open>c19.database_utilities\<close> is not among the
  sources. The spec's output collaborator appends all rows to the named table as one
  transaction, with no deduplication. The only derived table is \<open>sentences\<close>.
\<close>

definition insert_rows ::
  "'v row list \<Rightarrow> string \<Rightarrow> string \<Rightarrow> 'v world \<Rightarrow> error option \<times> 'v world" where
  "insert_rows list_to_insert table_name db_path w =
     (case files w db_path of
        None \<Rightarrow> (Some OperationalError, w)
      | Some db \<Rightarrow>
          if table_name = ''sentences'' then
            (None,
             w\<lparr>files := (files w)(db_path \<mapsto> db\<lparr>sentences_table := sentences_table db @ list_to_insert\<rparr>),
               events := events w @ [InsertedRows table_name db_path (length list_to_insert)]\<rparr>)
          else (Some OperationalError, w))"

text \<open>
  The pool of worker processes: the random state of the process that takes the chunk
  with a given index, and the order in which the results of \<open>n\<close> chunks arrive
  (\<^verbatim>\<open>imap_unordered\<close> promises none).
\<close>

record pool =
  worker_rng :: "nat \<Rightarrow> rng"
  arrival :: "nat \<Rightarrow> nat list"

text \<open>
  \<^verbatim>\<open>list(tqdm(pool.imap_unordered(...)))\<close>: every chunk is handed to a worker; the results
  are read in arrival order, and reading the result of a worker that raised raises in
  the driver.
\<close>

fun collect_results :: "(error + 'a) list \<Rightarrow> error + 'a list" where
  "collect_results [] = Inr []"
| "collect_results (Inl e # rest) = Inl e"
| "collect_results (Inr r # rest) =
     (case collect_results rest of Inl e \<Rightarrow> Inl e | Inr rs \<Rightarrow> Inr (r # rs))"

definition imap_unordered ::
  "nlp \<Rightarrow> pool \<Rightarrow> 'v batch_args list \<Rightarrow> 'v world \<Rightarrow>
     (error + 'v row list option list) \<times> 'v world" where
  "imap_unordered caps workers arguments w =
     (let n = length arguments;
          outcomes = [fst (pre_process_batch_of_articles caps (arguments ! k)
                             (worker_rng workers k)). k \<leftarrow> [0..<n]];
          arrived = [outcomes ! k. k \<leftarrow> arrival workers n, k < n]
      in (collect_results arrived, w\<lparr>events := events w @ [WorkerRan k. k \<leftarrow> [0..<n]]\<rparr>))"

text \<open>
  The insertion loop of lines 200 to 207. A batch that is \<^verbatim>\<open>None\<close> has no \<^verbatim>\<open>len\<close>.
\<close>

fun insert_batches ::
  "string \<Rightarrow> 'v row list option list \<Rightarrow> nat \<Rightarrow> 'v world \<Rightarrow> (error + nat) \<times> 'v world" where
  "insert_batches db_path [] inserted_sentences w = (Inr inserted_sentences, w)"
| "insert_batches db_path (None # rest) inserted_sentences w = (Inl TypeError, w)"
| "insert_batches db_path (Some article_sentences # rest) inserted_sentences w =
     (case insert_rows article_sentences ''sentences'' db_path w of
        (Some e, w') \<Rightarrow> (Inl e, w')
      | (None, w') \<Rightarrow>
          insert_batches db_path rest (inserted_sentences + length article_sentences) w')"

definition pre_process_and_vectorize_texts ::
  "nlp \<Rightarrow> pool \<Rightarrow> 'v embedding_model option \<Rightarrow> string \<Rightarrow> bool \<Rightarrow> bool \<Rightarrow> bool \<Rightarrow> int \<Rightarrow>
     'v world \<Rightarrow> error option \<times> 'v world" where
  "pre_process_and_vectorize_texts caps workers embedding_model db_path first_launch
       stem_words remove_num batch_size w =
     (if \<not> first_launch then
        (if isfile w db_path then (None, print_message (DbWillBeUsed db_path) w)
         else (Some AssertionError, w))
      else
        (case get_all_articles_data db_path w of
           (Inl e, w1) \<Rightarrow> (Some e, w1)
         | (Inr articles, w1) \<Rightarrow>
             (case split_into_chunks articles batch_size of
                Inl e \<Rightarrow> (Some e, w1)
              | Inr batches \<Rightarrow>
                  (let arguments =
                         [(batch, embedding_model, stem_words, remove_num). batch \<leftarrow> batches]
                   in case batches of
                        [] \<Rightarrow> (Some IndexError, w1)
                      | first_batch # _ \<Rightarrow>
                          (let w2 = print_message
                                      (FilesToPreprocess (length articles) (length batches)
                                         (length first_batch)) w1
                           in case imap_unordered caps workers arguments w2 of
                                (Inl e, w3) \<Rightarrow> (Some e, w3)
                              | (Inr batches_to_insert, w3) \<Rightarrow>
                                  (let w4 = print_message
                                              (TookPreprocess (length batches_to_insert)) w3
                                   in case insert_batches db_path batches_to_insert 0 w4 of
                                        (Inl e, w5) \<Rightarrow> (Some e, w5)
                                      | (Inr inserted_sentences, w5) \<Rightarrow>
                                          (None,
                                           print_message
                                             (TookInsert inserted_sentences db_path) w5)))))))"

section \<open>Concrete inputs\<close>

text \<open>
  A generator whose every draw is zero, a pool whose results arrive in submission order,
  an embedding model that knows no word and returns \<^verbatim>\<open>None\<close>, one that returns a fixed
  vector, and two worlds: one whose store holds no article and one whose store holds a
  single article.
\<close>

definition zero_rng :: rng where
  "zero_rng = \<lparr> draws = (\<lambda>k. 0), drawn = 0 \<rparr>"

definition in_order_pool :: pool where
  "in_order_pool = \<lparr> worker_rng = (\<lambda>k. zero_rng), arrival = (\<lambda>n. [0..<n]) \<rparr>"

definition unknown_words_model :: "int embedding_model" where
  "unknown_words_model pp_sentence = Inr None"

definition constant_model :: "int embedding_model" where
  "constant_model pp_sentence = Inr (Some [1, 2])"

text \<open>An embedding model whose every call finds the store locked.\<close>

definition locked_store_model :: "int embedding_model" where
  "locked_store_model pp_sentence = Inl OperationalError"

text \<open>
  An operation on a counter of attempts: the first two attempts find the store locked,
  the third returns the counter.
\<close>

definition locked_twice :: "nat \<Rightarrow> (error + nat) \<times> nat" where
  "locked_twice attempt =
     (if attempt < 2 then (Inl OperationalError, Suc attempt) else (Inr attempt, Suc attempt))"


definition one_article_world :: "int world" where
  "one_article_world =
     \<lparr> files = [''articles_database.sqlite'' \<mapsto>
                  \<lparr> articles_table = [(''a1'', Some ''COVID-19 spreads fast.'', None, None)],
                    sentences_table = [] \<rparr>],
       events = [] \<rparr>"

section \<open>Properties of the text normalizer\<close>

lemma letter_pattern_match_alphabetic:
  "letter_pattern_match word \<Longrightarrow> starts_alphabetic word"
  by (cases word)
     (simp_all add: letter_pattern_match_def starts_alphabetic_def is_alphabetic_def)

lemma normalized_sentence_origin:
  assumes "sentence \<in> set (fst (preprocess_text caps text stem_words remove_num))"
  shows "\<exists>s. sentence = [word \<leftarrow> s. length word > 1] \<and> s \<noteq> [] \<and>
             (remove_num \<longrightarrow> (\<exists>t. s = remove_numeric_words t))"
  using assms by (auto simp: preprocess_text_def Let_def split: if_splits)

text \<open>
  The normalized list is never longer than the raw one: it is the raw list's image with
  some sentences dropped, while the raw list is returned whole.
\<close>

lemma preprocess_text_length_le:
  "length (fst (preprocess_text caps text stem_words remove_num))
     \<le> length (snd (preprocess_text caps text stem_words remove_num))"
proof -
  have "length (filter P (map f (map g (map h (map k xs))))) \<le> length xs"
    for P :: "string list \<Rightarrow> bool" and f g :: "string list \<Rightarrow> string list"
      and h :: "string \<Rightarrow> string list" and k :: "string \<Rightarrow> string" and xs
    using length_filter_le [of P "map f (map g (map h (map k xs)))"] by simp
  note four = this
  have three: "length (filter P (map f (map h (map k xs)))) \<le> length xs"
    for P :: "string list \<Rightarrow> bool" and f :: "string list \<Rightarrow> string list"
      and h :: "string \<Rightarrow> string list" and k :: "string \<Rightarrow> string" and xs
    using length_filter_le [of P "map f (map h (map k xs))"] by simp
  have five: "length (filter P (map e (map f (map g (map h (map k xs)))))) \<le> length xs"
    for P :: "string list \<Rightarrow> bool" and e f g :: "string list \<Rightarrow> string list"
      and h :: "string \<Rightarrow> string list" and k :: "string \<Rightarrow> string" and xs
    using length_filter_le [of P "map e (map f (map g (map h (map k xs))))"] by simp
  show ?thesis
    unfolding preprocess_text_def Let_def fst_conv snd_conv length_map
    using three four five by (simp split: if_splits)
qed

text \<open>
  Claim C5. Every token of every normalized sentence that \<open>preprocess_text\<close> returns has
  at least two characters, and with \<open>remove_num\<close> set every returned token starts with a
  letter: it matches the pattern \<open>[a-z]\<close> at its first character, which is alphabetic.
  This holds for every sentence splitter, lower-casing, tokenizer, stop-word list and
  stemmer.
\<close>

theorem preprocess_text_tokens:
  "\<forall>sentence \<in> set (fst (preprocess_text caps text stem_words remove_num)).
     \<forall>word \<in> set sentence.
       2 \<le> length word \<and>
       (remove_num \<longrightarrow> letter_pattern_match word \<and> starts_alphabetic word)"
proof (intro ballI)
  fix sentence word
  assume sen: "sentence \<in> set (fst (preprocess_text caps text stem_words remove_num))"
    and w: "word \<in> set sentence"
  from normalized_sentence_origin [OF sen] obtain s
    where s: "sentence = [word \<leftarrow> s. length word > 1]"
      and num: "remove_num \<longrightarrow> (\<exists>t. s = remove_numeric_words t)"
    by blast
  from w s have len: "2 \<le> length word" and mem: "word \<in> set s" by auto
  have "letter_pattern_match word" if "remove_num"
    using num that mem by (auto simp: remove_numeric_words_def)
  with len show "2 \<le> length word \<and>
      (remove_num \<longrightarrow> letter_pattern_match word \<and> starts_alphabetic word)"
    by (simp add: letter_pattern_match_alphabetic)
qed

theorem preprocess_text_tokens_witness:
  "''covid'' \<in> set (hd (fst (preprocess_text ascii_nlp ''COVID-19 spreads fast.'' False True)))
   \<and> 2 \<le> length ''covid'' \<and> starts_alphabetic ''covid''"
proof -
  have ev: "fst (preprocess_text ascii_nlp ''COVID-19 spreads fast.'' False True) =
      [[''covid'', ''spreads'', ''fast'']]"
    by code_simp
  have "[''covid'', ''spreads'', ''fast'']
      \<in> set (fst (preprocess_text ascii_nlp ''COVID-19 spreads fast.'' False True))"
    by (simp add: ev)
  moreover have "''covid'' \<in> set [''covid'', ''spreads'', ''fast'']" by simp
  ultimately have "2 \<le> length ''covid'' \<and>
      (True \<longrightarrow> letter_pattern_match ''covid'' \<and> starts_alphabetic ''covid'')"
    using preprocess_text_tokens [of ascii_nlp "''COVID-19 spreads fast.''" False True]
    by blast
  then show ?thesis by (simp add: ev)
qed

text \<open>
  Claim C1. The claim asks for two sequences of equal length, index-aligned. Line 69
  drops the sentences without tokens from the normalized sequence only, and line 70
  returns the raw sequence whole. On the text \<open>It was. Masks work.\<close> the first sentence
  holds stop words only: the normalizer returns one normalized sentence and two raw ones,
  and the tokens of the second sentence stand at the index of the first raw sentence.
\<close>

theorem preprocess_text_misaligned:
  "preprocess_text ascii_nlp ''It was. Masks work.'' False True =
     ([[''masks'', ''work'']], [''It was.'', ''Masks work.''])
   \<and> length (fst (preprocess_text ascii_nlp ''It was. Masks work.'' False True))
       \<noteq> length (snd (preprocess_text ascii_nlp ''It was. Masks work.'' False True))"
proof -
  have ev: "preprocess_text ascii_nlp ''It was. Masks work.'' False True =
      ([[''masks'', ''work'']], [''It was.'', ''Masks work.''])"
    by code_simp
  show ?thesis by (simp add: ev)
qed

text \<open>
  Claim C4. The claim asks that no returned normalized sentence has zero tokens. Line 69
  tests a sentence for emptiness before line 68 removes its one-letter words. On the text
  \<open>It is B.\<close> the stop words go, the token \<open>b\<close> keeps the sentence through the test and is
  then removed: the normalizer returns one sentence, with no token.
\<close>

theorem preprocess_text_keeps_emptied_sentence:
  "preprocess_text ascii_nlp ''It is B.'' False True = ([[]], [''It is B.''])
   \<and> [] \<in> set (fst (preprocess_text ascii_nlp ''It is B.'' False True))"
proof -
  have ev: "preprocess_text ascii_nlp ''It is B.'' False True = ([[]], [''It is B.''])"
    by code_simp
  show ?thesis by (simp add: ev)
qed

section \<open>Properties of chunking\<close>

lemma py_range_unfold:
  "0 < step \<Longrightarrow> ndx < stop \<Longrightarrow> py_range ndx stop step = ndx # py_range (ndx + step) stop step"
  by (subst py_range.simps) simp

lemma py_range_done: "stop \<le> ndx \<Longrightarrow> py_range ndx stop step = []"
  by (subst py_range.simps) simp

lemma ceil_step:
  fixes d step :: nat
  assumes "0 < step" "0 < d"
  shows "(d + (step - 1)) div step = Suc ((d - step + (step - 1)) div step)"
proof (cases "step \<le> d")
  case True
  then have "d + (step - 1) = (d - step + (step - 1)) + step" by simp
  then have "(d + (step - 1)) div step = ((d - step + (step - 1)) + step) div step" by simp
  also have "\<dots> = (d - step + (step - 1)) div step + 1"
    using assms(1) by (simp only: div_add_self2)
  finally show ?thesis by simp
next
  case False
  then have z: "d - step = 0" by simp
  have "d + (step - 1) = (d - 1) + step" using assms by simp
  then have "(d + (step - 1)) div step = ((d - 1) + step) div step" by simp
  also have "\<dots> = (d - 1) div step + 1"
    using assms(1) by (simp only: div_add_self2)
  also have "(d - 1) div step = 0" using False assms by simp
  finally show ?thesis using z assms by simp
qed

lemma length_py_range:
  "0 < step \<Longrightarrow> length (py_range ndx stop step) = (stop - ndx + (step - 1)) div step"
proof (induction ndx stop step rule: py_range.induct)
  case (1 ndx stop step)
  show ?case
  proof (cases "stop \<le> ndx")
    case True
    with 1(2) show ?thesis by (simp add: py_range_done)
  next
    case False
    then have lt: "ndx < stop" by simp
    have ih: "length (py_range (ndx + step) stop step) = (stop - (ndx + step) + (step - 1)) div step"
      using 1 False by simp
    have pos: "0 < stop - ndx" using lt by simp
    have "(stop - ndx + (step - 1)) div step = Suc ((stop - ndx - step + (step - 1)) div step)"
      by (rule ceil_step [OF 1(2) pos])
    then have "(stop - ndx + (step - 1)) div step = Suc ((stop - (ndx + step) + (step - 1)) div step)"
      by (simp only: diff_diff_left)
    with ih show ?thesis
      by (simp only: py_range_unfold [OF 1(2) lt] length_Cons)
  qed
qed

lemma concat_chunks_from:
  assumes "0 < c"
  shows "concat [slice xs ndx (min (ndx + c) (length xs)). ndx \<leftarrow> py_range k (length xs) c] = drop k xs"
  using assms
proof (induction k "length xs" c rule: py_range.induct)
  case (1 ndx step)
  show ?case
  proof (cases "length xs \<le> ndx")
    case True
    then show ?thesis by (simp add: py_range_done)
  next
    case False
    then have lt: "ndx < length xs" by simp
    have ih: "concat [slice xs i (min (i + step) (length xs)). i \<leftarrow> py_range (ndx + step) (length xs) step]
        = drop (ndx + step) xs"
      using 1 False by simp
    have "slice xs ndx (min (ndx + step) (length xs)) = take step (drop ndx xs)"
      by (simp add: slice_def min_def)
    moreover have "drop (ndx + step) xs = drop step (drop ndx xs)"
      by (simp add: add.commute)
    ultimately show ?thesis
      using ih by (simp only: py_range_unfold [OF 1(2) lt] list.map concat.simps append_take_drop_id)
  qed
qed

lemma chunk_sizes_from:
  assumes "0 < c"
  shows "(\<forall>chunk \<in> set (butlast [slice xs ndx (min (ndx + c) (length xs)). ndx \<leftarrow> py_range k (length xs) c]). length chunk = c)
    \<and> (\<forall>chunk \<in> set [slice xs ndx (min (ndx + c) (length xs)). ndx \<leftarrow> py_range k (length xs) c]. 1 \<le> length chunk \<and> length chunk \<le> c)"
  using assms
proof (induction k "length xs" c rule: py_range.induct)
  case (1 ndx step)
  show ?case
  proof (cases "length xs \<le> ndx")
    case True
    then show ?thesis by (simp add: py_range_done)
  next
    case False
    then have lt: "ndx < length xs" by simp
    let ?rest = "[slice xs i (min (i + step) (length xs)). i \<leftarrow> py_range (ndx + step) (length xs) step]"
    let ?h = "slice xs ndx (min (ndx + step) (length xs))"
    have nz: "\<not> (step = 0 \<or> length xs \<le> ndx)" using 1(2) lt by simp
    have ih: "(\<forall>chunk \<in> set (butlast ?rest). length chunk = step) \<and>
        (\<forall>chunk \<in> set ?rest. 1 \<le> length chunk \<and> length chunk \<le> step)"
      by (rule 1(1) [OF nz 1(2)])
    have unf: "[slice xs i (min (i + step) (length xs)). i \<leftarrow> py_range ndx (length xs) step] = ?h # ?rest"
      by (simp only: py_range_unfold [OF 1(2) lt] list.map)
    have hlen: "length ?h = min step (length xs - ndx)"
      by (auto simp: slice_def min_def)
    have hfull: "length ?h = step" if "?rest \<noteq> []"
    proof -
      have "ndx + step < length xs"
      proof (rule ccontr)
        assume "\<not> ndx + step < length xs"
        then have "py_range (ndx + step) (length xs) step = []" by (simp add: py_range_done)
        with that show False by simp
      qed
      with hlen show ?thesis by simp
    qed
    have hpos: "1 \<le> length ?h \<and> length ?h \<le> step" using hlen lt 1(2) by simp
    define h where "h = ?h"
    define rest where "rest = ?rest"
    have ih': "(\<forall>chunk \<in> set (butlast rest). length chunk = step) \<and>
        (\<forall>chunk \<in> set rest. 1 \<le> length chunk \<and> length chunk \<le> step)"
      using ih unfolding rest_def .
    have hfull': "rest \<noteq> [] \<Longrightarrow> length h = step"
      using hfull unfolding rest_def h_def .
    have hpos': "1 \<le> length h \<and> length h \<le> step"
      using hpos unfolding h_def .
    have "(\<forall>chunk \<in> set (butlast (h # rest)). length chunk = step) \<and>
        (\<forall>chunk \<in> set (h # rest). 1 \<le> length chunk \<and> length chunk \<le> step)"
    proof (cases "rest = []")
      case True
      with hpos' show ?thesis by simp
    next
      case False
      then have "set (butlast (h # rest)) = insert h (set (butlast rest))" by simp
      with ih' hfull' [OF False] hpos' show ?thesis by auto
    qed
    then show ?thesis unfolding unf h_def rest_def .
  qed
qed

lemma ceiling_nat_div:
  fixes n c :: nat
  assumes "0 < c"
  shows "int ((n + (c - 1)) div c) = \<lceil>real n / real c\<rceil>"
proof -
  define q where "q = (n + (c - 1)) div c"
  have lo: "q * c \<le> n + (c - 1)"
    unfolding q_def by (rule div_times_less_eq_dividend)
  have hi: "n + (c - 1) < c + q * c"
    unfolding q_def by (rule dividend_less_div_times [OF assms])
  have a: "n \<le> q * c" using hi assms by simp
  have b: "q * c < n + c" using lo assms by simp
  have "real n \<le> real (q * c)" using a by (simp only: of_nat_le_iff)
  then have up: "real n / real c \<le> real q"
    using assms by (simp add: pos_divide_le_eq)
  have "real (q * c) < real (n + c)" using b by (simp only: of_nat_less_iff)
  then have "(real q - 1) * real c < real n"
    by (simp add: algebra_simps)
  then have down: "real q - 1 < real n / real c"
    using assms by (simp add: pos_less_divide_eq)
  have "\<lceil>real n / real c\<rceil> = int q"
    by (rule ceiling_unique) (use up down in simp_all)
  then show ?thesis unfolding q_def by simp
qed

text \<open>
  Claim C7. For every sequence and every chunk size of at least one,
  \<open>split_into_chunks\<close> returns chunks whose concatenation, in order, is the sequence;
  their number is the ceiling of the length divided by the chunk size (\<open>ceil (N / C)\<close>);
  every chunk but the last has exactly the chunk size, and every chunk, the last
  included, has between one element and the chunk size.
\<close>

theorem split_into_chunks_partition:
  assumes "1 \<le> C"
  shows "\<exists>chunks. split_into_chunks xs C = Inr chunks
           \<and> concat chunks = xs
           \<and> int (length chunks) = \<lceil>real (length xs) / real_of_int C\<rceil>
           \<and> (\<forall>chunk \<in> set (butlast chunks). int (length chunk) = C)
           \<and> (\<forall>chunk \<in> set chunks. 1 \<le> length chunk \<and> int (length chunk) \<le> C)"
proof -
  define c where "c = nat C"
  have c: "0 < c" "C = int c" using assms by (simp_all add: c_def)
  define chunks where
    "chunks = [slice xs ndx (min (ndx + c) (length xs)). ndx \<leftarrow> py_range 0 (length xs) c]"
  have eq: "split_into_chunks xs C = Inr chunks"
    using assms by (simp add: split_into_chunks_def chunks_def c_def Let_def)
  have cat: "concat chunks = xs"
    unfolding chunks_def using concat_chunks_from [OF c(1), of xs 0] by simp
  have "length chunks = (length xs + (c - 1)) div c"
    unfolding chunks_def using length_py_range [OF c(1), of 0 "length xs"] by simp
  then have len: "int (length chunks) = \<lceil>real (length xs) / real_of_int C\<rceil>"
    using ceiling_nat_div [OF c(1), of "length xs"] c(2) by simp
  have sizes: "(\<forall>chunk \<in> set (butlast chunks). int (length chunk) = C)
      \<and> (\<forall>chunk \<in> set chunks. 1 \<le> length chunk \<and> int (length chunk) \<le> C)"
  proof -
    have "(\<forall>chunk \<in> set (butlast chunks). length chunk = c)
        \<and> (\<forall>chunk \<in> set chunks. 1 \<le> length chunk \<and> length chunk \<le> c)"
      unfolding chunks_def by (rule chunk_sizes_from [OF c(1)])
    then show ?thesis unfolding c(2) by simp
  qed
  from eq cat len sizes show ?thesis by blast
qed

theorem split_into_chunks_partition_witness:
  "(1::int) \<le> 3
   \<and> split_into_chunks [1, 2, 3, 4, 5, 6, 7 :: nat] 3 = Inr [[1, 2, 3], [4, 5, 6], [7]]
   \<and> concat [[1, 2, 3], [4, 5, 6], [7 :: nat]] = [1, 2, 3, 4, 5, 6, 7]
   \<and> int (length [[1, 2, 3], [4, 5, 6], [7 :: nat]]) = \<lceil>real (length [1, 2, 3, 4, 5, 6, 7 :: nat]) / real_of_int 3\<rceil>"
proof -
  have h: "(1::int) \<le> 3" by simp
  have ev: "split_into_chunks [1, 2, 3, 4, 5, 6, 7 :: nat] 3 = Inr [[1, 2, 3], [4, 5, 6], [7]]"
    by code_simp
  from split_into_chunks_partition [OF h, of "[1, 2, 3, 4, 5, 6, 7 :: nat]"] ev
  have "int (length [[1, 2, 3], [4, 5, 6], [7 :: nat]]) = \<lceil>real (length [1, 2, 3, 4, 5, 6, 7 :: nat]) / real_of_int 3\<rceil>"
    by simp
  with h ev show ?thesis by simp
qed

section \<open>Properties of the section sampler\<close>

lemma randbelow_less: "0 < n \<Longrightarrow> fst (randbelow n g) < n"
  by (simp add: randbelow_def)

lemma shuffle_from_step:
  "shuffle_from (Suc k) x g =
     shuffle_from k (x[Suc k := x ! fst (randbelow (Suc (Suc k)) g),
                       fst (randbelow (Suc (Suc k)) g) := x ! Suc k])
       (snd (randbelow (Suc (Suc k)) g))"
  by (simp add: Let_def case_prod_beta)

lemma shuffle_from_mset:
  "k < length x \<Longrightarrow> mset (fst (shuffle_from k x g)) = mset x"
proof (induction k arbitrary: x g)
  case 0
  show ?case by simp
next
  case (Suc k)
  define j where "j = fst (randbelow (Suc (Suc k)) g)"
  have "j < Suc (Suc k)" unfolding j_def by (rule randbelow_less) simp
  with Suc.prems have j: "j < length x" by simp
  define y where "y = x[Suc k := x ! j, j := x ! Suc k]"
  have y: "mset y = mset x" "length y = length x"
    unfolding y_def using Suc.prems j by (simp_all add: mset_swap)
  have "mset (fst (shuffle_from k y (snd (randbelow (Suc (Suc k)) g)))) = mset y"
    by (rule Suc.IH) (use y Suc.prems in simp)
  then show ?case
    unfolding shuffle_from_step y_def j_def using y(1) [unfolded y_def j_def] by simp
qed

lemma shuffle_from_map:
  "k < length xs \<Longrightarrow>
     shuffle_from k (map f xs) g = (map f (fst (shuffle_from k xs g)), snd (shuffle_from k xs g))"
proof (induction k arbitrary: xs g)
  case 0
  show ?case by simp
next
  case (Suc k)
  define j where "j = fst (randbelow (Suc (Suc k)) g)"
  have "j < Suc (Suc k)" unfolding j_def by (rule randbelow_less) simp
  with Suc.prems have j: "j < length xs" by simp
  define ys where "ys = xs[Suc k := xs ! j, j := xs ! Suc k]"
  have swap: "(map f xs)[Suc k := map f xs ! j, j := map f xs ! Suc k] = map f ys"
    unfolding ys_def using Suc.prems j by (simp add: map_update)
  have len: "k < length ys" unfolding ys_def using Suc.prems by simp
  show ?case
    unfolding shuffle_from_step
    using Suc.IH [OF len, of "snd (randbelow (Suc (Suc k)) g)"] swap
    unfolding ys_def j_def by simp
qed

lemma shuffle_mset: "mset (fst (shuffle x g)) = mset x"
proof (cases x)
  case Nil
  then show ?thesis by (simp add: shuffle_def)
next
  case (Cons a as)
  then have "length x - 1 < length x" by simp
  then show ?thesis unfolding shuffle_def by (rule shuffle_from_mset)
qed

lemma shuffle_by_indices:
  "shuffle x g =
     (map (\<lambda>i. x ! i) (fst (shuffle [0..<length x] g)), snd (shuffle [0..<length x] g))"
proof (cases "x = []")
  case True
  then show ?thesis by (simp add: shuffle_def)
next
  case False
  then have k: "length x - 1 < length [0..<length x]" by simp
  have x: "map (\<lambda>i. x ! i) [0..<length x] = x" by (rule map_nth)
  have "shuffle x g = shuffle_from (length x - 1) (map (\<lambda>i. x ! i) [0..<length x]) g"
    unfolding shuffle_def x ..
  also have "\<dots> = (map (\<lambda>i. x ! i) (fst (shuffle_from (length x - 1) [0..<length x] g)),
      snd (shuffle_from (length x - 1) [0..<length x] g))"
    by (rule shuffle_from_map [OF k])
  finally show ?thesis by (simp add: shuffle_def)
qed

lemma shuffle_indices:
  "distinct (fst (shuffle [0..<n] g))"
  "set (fst (shuffle [0..<n] g)) = {0..<n}"
  "length (fst (shuffle [0..<n] g)) = n"
proof -
  have m: "mset (fst (shuffle [0..<n] g)) = mset [0..<n]" by (rule shuffle_mset)
  show "distinct (fst (shuffle [0..<n] g))"
    using m by (metis distinct_upt mset_eq_imp_distinct_iff)
  show "set (fst (shuffle [0..<n] g)) = {0..<n}"
    using m by (metis mset_eq_setD set_upt)
  show "length (fst (shuffle [0..<n] g)) = n"
    using m by (metis mset_eq_length length_upt diff_zero)
qed


text \<open>
  Claim C3, as amended. The worker samples a body section only when it has at least one
  normalized sentence (line 103). For two index-aligned sequences of \<open>n \<ge> 1\<close>
  sentences, \<open>sample_body\<close> returns the pairs at a list \<open>picked\<close> of indices into the
  input: the indices are distinct (no pair is drawn twice), all below \<open>n\<close> (every output
  pair occurs in the input), and there are \<open>min 20 n\<close> of them, so exactly twenty when
  \<open>n > 20\<close>. When \<open>n \<le> 20\<close> every index is picked: all pairs are returned, each as it
  was, in the order the shuffle left them.
\<close>

theorem sample_body_selection:
  assumes aligned: "length pp_sentences = length sentences_raw"
    and nonempty: "0 < length pp_sentences"
  shows "\<exists>picked g'.
           sample_body pp_sentences sentences_raw g =
             (Inr (map (\<lambda>i. pp_sentences ! i) picked, map (\<lambda>i. sentences_raw ! i) picked), g')
           \<and> distinct picked
           \<and> set picked \<subseteq> {0..<length pp_sentences}
           \<and> length picked = min 20 (length pp_sentences)
           \<and> (length pp_sentences \<le> 20 \<longrightarrow> set picked = {0..<length pp_sentences})"
proof -
  define n where "n = length pp_sentences"
  define temp_list where "temp_list = zip pp_sentences sentences_raw"
  define perm where "perm = fst (shuffle [0..<n] g)"
  define picked where "picked = take 20 perm"
  have len_temp: "length temp_list = n"
    unfolding temp_list_def n_def using aligned by simp
  have perm: "distinct perm" "set perm = {0..<n}" "length perm = n"
    unfolding perm_def by (rule shuffle_indices)+
  have sh: "shuffle temp_list g = (map (\<lambda>i. temp_list ! i) perm, snd (shuffle [0..<n] g))"
    using shuffle_by_indices [of temp_list g] unfolding len_temp perm_def .
  have d: "distinct picked" unfolding picked_def using perm(1) by (rule distinct_take)
  have sub: "set picked \<subseteq> {0..<n}"
    unfolding picked_def using set_take_subset [of 20 perm] perm(2) by simp
  have len: "length picked = min 20 n"
    unfolding picked_def using perm(3) by (simp add: min.commute)
  have all: "set picked = {0..<n}" if "n \<le> 20"
    unfolding picked_def using that perm(2,3) by simp
  have ne: "picked \<noteq> []"
    using len nonempty unfolding n_def by (auto simp: min_def split: if_splits)
  have sel: "take 20 (map (\<lambda>i. temp_list ! i) perm) = map (\<lambda>i. temp_list ! i) picked"
    unfolding picked_def by (rule take_map)
  have fsts: "map fst (map (\<lambda>i. temp_list ! i) picked) = map (\<lambda>i. pp_sentences ! i) picked"
    using sub aligned unfolding temp_list_def n_def by (auto simp: subset_iff)
  have snds: "map snd (map (\<lambda>i. temp_list ! i) picked) = map (\<lambda>i. sentences_raw ! i) picked"
    using sub aligned unfolding temp_list_def n_def by (auto simp: subset_iff)
  have "sample_body pp_sentences sentences_raw g =
      (Inr (map (\<lambda>i. pp_sentences ! i) picked, map (\<lambda>i. sentences_raw ! i) picked),
       snd (shuffle [0..<n] g))"
    unfolding sample_body_def temp_list_def [symmetric] Let_def sh prod.case sel fsts snds
    using ne by simp
  with d sub len all show ?thesis unfolding n_def by blast
qed

text \<open>
  The claim as stated returns a section of at most twenty pairs unchanged. Line 108
  shuffles before line 109 slices, whatever the count: with a generator that draws zero,
  a section of two pairs comes back in the opposite order.
\<close>

theorem sample_body_reorders:
  "fst (sample_body [[''masks'', ''work''], [''covid'', ''spreads'']]
          [''Masks work.'', ''COVID spreads.''] zero_rng)
     = Inr ([[''covid'', ''spreads''], [''masks'', ''work'']], [''COVID spreads.'', ''Masks work.''])
   \<and> fst (sample_body [[''masks'', ''work''], [''covid'', ''spreads'']]
          [''Masks work.'', ''COVID spreads.''] zero_rng)
     \<noteq> Inr ([[''masks'', ''work''], [''covid'', ''spreads'']], [''Masks work.'', ''COVID spreads.''])"
  by code_simp

theorem sample_body_selection_witness:
  "length [[''masks'', ''work''], [''covid'', ''spreads'']]
     = length [''Masks work.'', ''COVID spreads.'']
   \<and> 0 < length [[''masks'', ''work''], [''covid'', ''spreads'']]
   \<and> (\<exists>picked g'.
         sample_body [[''masks'', ''work''], [''covid'', ''spreads'']]
            [''Masks work.'', ''COVID spreads.''] zero_rng =
           (Inr (map (\<lambda>i. [[''masks'', ''work''], [''covid'', ''spreads'']] ! i) picked,
                 map (\<lambda>i. [''Masks work.'', ''COVID spreads.''] ! i) picked), g')
         \<and> distinct picked
         \<and> set picked \<subseteq> {0..<length [[''masks'', ''work''], [''covid'', ''spreads'']]}
         \<and> length picked = min 20 (length [[''masks'', ''work''], [''covid'', ''spreads'']])
         \<and> (length [[''masks'', ''work''], [''covid'', ''spreads'']] \<le> 20 \<longrightarrow>
              set picked = {0..<length [[''masks'', ''work''], [''covid'', ''spreads'']]}))"
proof -
  have a: "length [[''masks'', ''work''], [''covid'', ''spreads'']]
      = length [''Masks work.'', ''COVID spreads.'']"
    by simp
  have b: "0 < length [[''masks'', ''work''], [''covid'', ''spreads'']]" by simp
  show ?thesis by (intro conjI a b sample_body_selection [OF a b])
qed

section \<open>Properties of the retry decorator\<close>

lemma attempt_state_0: "attempt_state f s 0 = s"
  by (simp add: attempt_state_def)

lemma attempt_state_Suc: "attempt_state f s (Suc k) = attempt_state f (snd (f s)) k"
  by (simp only: attempt_state_def funpow_Suc_right o_apply)

lemma attempt_outcome_0: "attempt_outcome f s 0 = fst (f s)"
  by (simp add: attempt_outcome_def attempt_state_0)

lemma attempt_outcome_Suc: "attempt_outcome f s (Suc k) = attempt_outcome f (snd (f s)) k"
  by (simp add: attempt_outcome_def attempt_state_Suc)

lemma retry_internal_run:
  assumes "n \<le> t"
    and "\<forall>k<n. attempt_outcome f s k = Inl OperationalError"
    and "attempt_outcome f s n = Inl OperationalError \<longrightarrow> n = t"
  shows "retry_internal (\<lambda>e. e = OperationalError) (Suc t) d 1 f s trace =
           (case attempt_outcome f s n of Inl e \<Rightarrow> Inl e | Inr v \<Rightarrow> Inr (Some v),
            attempt_state f s (Suc n),
            trace @ concat (replicate n [Raised OperationalError, Slept d]) @
              [case attempt_outcome f s n of Inl e \<Rightarrow> Raised e | Inr v \<Rightarrow> Returned])"
  using assms
proof (induction n arbitrary: t s trace)
  case 0
  obtain out s1 where fs: "f s = (out, s1)" by (cases "f s")
  have o: "attempt_outcome f s 0 = out" using fs by (simp add: attempt_outcome_0)
  have st: "attempt_state f s (Suc 0) = s1"
    using fs by (simp add: attempt_state_Suc attempt_state_0)
  show ?case
  proof (cases out)
    case (Inr v)
    with fs o st show ?thesis by simp
  next
    case (Inl e)
    show ?thesis
    proof (cases "e = OperationalError")
      case True
      with "0.prems"(3) o Inl have "t = 0" by simp
      with fs o st Inl True show ?thesis by simp
    next
      case False
      with fs o st Inl show ?thesis by simp
    qed
  qed
next
  case (Suc n)
  obtain out s1 where fs: "f s = (out, s1)" by (cases "f s")
  from Suc.prems(2) have "attempt_outcome f s 0 = Inl OperationalError" by simp
  with fs have out: "out = Inl OperationalError" by (simp add: attempt_outcome_0)
  from Suc.prems(1) obtain t' where t: "t = Suc t'" by (cases t) simp_all
  have shift: "attempt_outcome f s (Suc k) = attempt_outcome f s1 k"
    "attempt_state f s (Suc k) = attempt_state f s1 k" for k
    using fs by (simp_all add: attempt_outcome_Suc attempt_state_Suc)
  have a: "n \<le> t'" using Suc.prems(1) t by simp
  have b: "\<forall>k<n. attempt_outcome f s1 k = Inl OperationalError"
  proof (intro allI impI)
    fix k assume "k < n"
    then have "Suc k < Suc n" by simp
    with Suc.prems(2) have "attempt_outcome f s (Suc k) = Inl OperationalError" by blast
    then show "attempt_outcome f s1 k = Inl OperationalError" by (simp only: shift)
  qed
  have c: "attempt_outcome f s1 n = Inl OperationalError \<longrightarrow> n = t'"
    using Suc.prems(3) t by (simp add: shift)
  have step: "retry_internal (\<lambda>e. e = OperationalError) (Suc t) d 1 f s trace =
      retry_internal (\<lambda>e. e = OperationalError) (Suc t') d 1 f s1
        (trace @ [Raised OperationalError, Slept d])"
    using fs out t by simp
  show ?case
    unfolding step Suc.IH [OF a b c] shift by simp
qed

lemma first_other_outcome:
  "\<exists>n\<le>t. (\<forall>k<n. attempt_outcome f s k = Inl OperationalError)
         \<and> (attempt_outcome f s n = Inl OperationalError \<longrightarrow> n = t)"
proof (cases "\<exists>k\<le>t. attempt_outcome f s k \<noteq> Inl OperationalError")
  case True
  define n where "n = (LEAST k. attempt_outcome f s k \<noteq> Inl OperationalError)"
  from True obtain k where k: "k \<le> t" "attempt_outcome f s k \<noteq> Inl OperationalError"
    by blast
  have n1: "attempt_outcome f s n \<noteq> Inl OperationalError"
    unfolding n_def using k(2) by (rule LeastI)
  have n2: "n \<le> k" unfolding n_def using k(2) by (rule Least_le)
  have n3: "attempt_outcome f s j = Inl OperationalError" if "j < n" for j
    using not_less_Least [of j "\<lambda>k. attempt_outcome f s k \<noteq> Inl OperationalError"] that
    unfolding n_def by simp
  from n1 n2 n3 k(1) show ?thesis by (intro exI [of _ n]) simp
next
  case False
  then show ?thesis by (intro exI [of _ t]) simp
qed

lemma retry_operational_run:
  "\<exists>n<5.
      (\<forall>k<n. attempt_outcome f s k = Inl OperationalError)
      \<and> (attempt_outcome f s n = Inl OperationalError \<longrightarrow> n = 4)
      \<and> retry_operational f s =
          (case attempt_outcome f s n of Inl e \<Rightarrow> Inl e | Inr v \<Rightarrow> Inr (Some v),
           attempt_state f s (Suc n),
           concat (replicate n [Raised OperationalError, Slept 2]) @
             [case attempt_outcome f s n of Inl e \<Rightarrow> Raised e | Inr v \<Rightarrow> Returned])"
proof -
  from first_other_outcome [of 4 f s] obtain n where n: "n \<le> 4"
    and before: "\<forall>k<n. attempt_outcome f s k = Inl OperationalError"
    and last: "attempt_outcome f s n = Inl OperationalError \<longrightarrow> n = 4"
    by blast
  have five: "(5::nat) = Suc 4" by simp
  have "retry_operational f s =
      (case attempt_outcome f s n of Inl e \<Rightarrow> Inl e | Inr v \<Rightarrow> Inr (Some v),
       attempt_state f s (Suc n),
       [] @ concat (replicate n [Raised OperationalError, Slept 2]) @
         [case attempt_outcome f s n of Inl e \<Rightarrow> Raised e | Inr v \<Rightarrow> Returned])"
    unfolding retry_operational_def five by (rule retry_internal_run [OF n before last])
  then have run: "retry_operational f s =
      (case attempt_outcome f s n of Inl e \<Rightarrow> Inl e | Inr v \<Rightarrow> Inr (Some v),
       attempt_state f s (Suc n),
       concat (replicate n [Raised OperationalError, Slept 2]) @
         [case attempt_outcome f s n of Inl e \<Rightarrow> Raised e | Inr v \<Rightarrow> Returned])"
    by simp
  from n have "n < 5" by simp
  with before last run show ?thesis by blast
qed

text \<open>
  An exception of any other kind ends the run at the attempt that raised it: it is the
  result, and no sleep and no attempt follow it.
\<close>

lemma retry_operational_other_exception:
  assumes "n < 5"
    and "\<forall>k<n. attempt_outcome f s k = Inl OperationalError"
    and "attempt_outcome f s n = Inl e" and "e \<noteq> OperationalError"
  shows "retry_operational f s =
           (Inl e, attempt_state f s (Suc n),
            concat (replicate n [Raised OperationalError, Slept 2]) @ [Raised e])"
proof -
  have five: "(5::nat) = Suc 4" by simp
  have n: "n \<le> 4" using assms(1) by simp
  have last: "attempt_outcome f s n = Inl OperationalError \<longrightarrow> n = 4"
    using assms(3,4) by simp
  show ?thesis
    unfolding retry_operational_def five
    using retry_internal_run [OF n assms(2) last, of 2 "[]"] assms(3) by simp
qed

text \<open>A store that is locked for two attempts: two sleeps, then the value of the third.\<close>

lemma retry_operational_locked_twice:
  "retry_operational locked_twice 0 =
     (Inr (Some 2), 3,
      [Raised OperationalError, Slept 2, Raised OperationalError, Slept 2, Returned])"
  by code_simp

text \<open>
  Claim C6. The worker is its body \<open>batch_rows\<close> under the decorator of line 73. For
  every chunk there is a number \<open>n < 5\<close> such that the body raised \<open>OperationalError\<close> on
  each of its attempts \<open>0\<close> to \<open>n - 1\<close>, and the worker's result is what the body did on
  attempt \<open>n\<close>: the rows it returned, or the exception it raised. The trace holds one
  sleep of the same two seconds after each of the \<open>n\<close> failed attempts and nothing after
  attempt \<open>n\<close>, so there are at most five attempts. Attempt \<open>n\<close> raised
  \<open>OperationalError\<close> only if it was the fifth; hence the first attempt that returns or
  raises anything else ends the run with its own outcome.
\<close>

theorem retry_policy:
  "\<exists>n<5.
      (\<forall>k<n. attempt_outcome (batch_rows caps args) g k = Inl OperationalError)
      \<and> (attempt_outcome (batch_rows caps args) g n = Inl OperationalError \<longrightarrow> n = 4)
      \<and> pre_process_batch_of_articles caps args g =
          (case attempt_outcome (batch_rows caps args) g n of
             Inl e \<Rightarrow> Inl e
           | Inr rows \<Rightarrow> Inr (Some rows),
           attempt_state (batch_rows caps args) g (Suc n),
           concat (replicate n [Raised OperationalError, Slept 2]) @
             [case attempt_outcome (batch_rows caps args) g n of
                Inl e \<Rightarrow> Raised e
              | Inr rows \<Rightarrow> Returned])"
  unfolding pre_process_batch_of_articles_def by (rule retry_operational_run)


theorem retry_policy_witness:
  "attempt_outcome (batch_rows ascii_nlp
      ([(''a1'', Some ''COVID-19 spreads fast.'', None, None)],
       Some locked_store_model, False, True)) zero_rng 0 = Inl OperationalError
   \<and> attempt_outcome (batch_rows ascii_nlp
      ([(''a1'', Some ''COVID-19 spreads fast.'', None, None)],
       Some locked_store_model, False, True)) zero_rng 1 = Inl OperationalError
   \<and> attempt_outcome (batch_rows ascii_nlp
      ([(''a1'', Some ''COVID-19 spreads fast.'', None, None)],
       Some locked_store_model, False, True)) zero_rng 2 = Inl OperationalError
   \<and> attempt_outcome (batch_rows ascii_nlp
      ([(''a1'', Some ''COVID-19 spreads fast.'', None, None)],
       Some locked_store_model, False, True)) zero_rng 3 = Inl OperationalError
   \<and> attempt_outcome (batch_rows ascii_nlp
      ([(''a1'', Some ''COVID-19 spreads fast.'', None, None)],
       Some locked_store_model, False, True)) zero_rng 4 = Inl OperationalError
   \<and> fst (pre_process_batch_of_articles ascii_nlp
      ([(''a1'', Some ''COVID-19 spreads fast.'', None, None)],
       Some locked_store_model, False, True) zero_rng) = Inl OperationalError
   \<and> snd (snd (pre_process_batch_of_articles ascii_nlp
      ([(''a1'', Some ''COVID-19 spreads fast.'', None, None)],
       Some locked_store_model, False, True) zero_rng))
       = [Raised OperationalError, Slept 2, Raised OperationalError, Slept 2,
          Raised OperationalError, Slept 2, Raised OperationalError, Slept 2,
          Raised OperationalError]"
proof -
  define f where "f = batch_rows ascii_nlp
      ([(''a1'', Some ''COVID-19 spreads fast.'', None, None)],
       Some locked_store_model, False, True)"
  define out where "out = pre_process_batch_of_articles ascii_nlp
      ([(''a1'', Some ''COVID-19 spreads fast.'', None, None)],
       Some locked_store_model, False, True) zero_rng"
  have o0: "attempt_outcome f zero_rng 0 = Inl OperationalError" unfolding f_def by code_simp
  have o1: "attempt_outcome f zero_rng 1 = Inl OperationalError" unfolding f_def by code_simp
  have o2: "attempt_outcome f zero_rng 2 = Inl OperationalError" unfolding f_def by code_simp
  have o3: "attempt_outcome f zero_rng 3 = Inl OperationalError" unfolding f_def by code_simp
  have o4: "attempt_outcome f zero_rng 4 = Inl OperationalError" unfolding f_def by code_simp
  have locked: "attempt_outcome f zero_rng k = Inl OperationalError" if "k < 5" for k
  proof -
    from that have "k = 0 \<or> k = 1 \<or> k = 2 \<or> k = 3 \<or> k = 4" by arith
    with o0 o1 o2 o3 o4 show ?thesis by blast
  qed
  from retry_policy [of ascii_nlp "([(''a1'', Some ''COVID-19 spreads fast.'', None, None)],
       Some locked_store_model, False, True)" zero_rng]
  obtain n where n: "n < 5"
    and last: "attempt_outcome f zero_rng n = Inl OperationalError \<longrightarrow> n = 4"
    and run: "out =
       (case attempt_outcome f zero_rng n of Inl e \<Rightarrow> Inl e | Inr rows \<Rightarrow> Inr (Some rows),
        attempt_state f zero_rng (Suc n),
        concat (replicate n [Raised OperationalError, Slept 2]) @
          [case attempt_outcome f zero_rng n of Inl e \<Rightarrow> Raised e | Inr rows \<Rightarrow> Returned])"
    unfolding f_def out_def by blast
  from locked [OF n] last have n4: "n = 4" by simp
  have four: "replicate 4 x = [x, x, x, x]" for x :: "retry_event list"
    by (simp add: numeral_eq_Suc)
  have res: "fst out = Inl OperationalError"
    unfolding run n4 o4 by simp
  have tr: "snd (snd out) = [Raised OperationalError, Slept 2, Raised OperationalError, Slept 2,
          Raised OperationalError, Slept 2, Raised OperationalError, Slept 2,
          Raised OperationalError]"
    unfolding run n4 o4 four by simp
  show ?thesis
    using o0 o1 o2 o3 o4 res tr unfolding f_def out_def by (intro conjI)
qed

section \<open>Properties of the batch worker\<close>

lemma sentence_vector_null:
  "sentence_vector embedding_model pp_sentence = Inr vector \<Longrightarrow>
     (vector = Null \<longleftrightarrow> embedding_model = None)"
  by (auto simp: sentence_vector_def split: option.splits sum.splits)

lemma emit_rows_shape:
  assumes "emit_rows embedding_model article_id section pairs articles_rows = Inr rows"
    and "\<forall>row \<in> set articles_rows. row_shape embedding_model row"
    and "section \<in> {''title'', ''abstract'', ''body''}"
  shows "\<forall>row \<in> set rows. row_shape embedding_model row"
  using assms
proof (induction pairs arbitrary: articles_rows)
  case Nil
  then show ?case by simp
next
  case (Cons pair pairs)
  obtain pp_sentence raw_sentence where pair: "pair = (pp_sentence, raw_sentence)"
    by (cases pair)
  show ?case
  proof (cases "pp_sentence = []")
    case True
    with Cons.prems(1) pair
    have "emit_rows embedding_model article_id section pairs articles_rows = Inr rows" by simp
    from Cons.IH [OF this Cons.prems(2,3)] show ?thesis .
  next
    case False
    with Cons.prems(1) pair obtain vector
      where v: "sentence_vector embedding_model pp_sentence = Inr vector"
        and rest: "emit_rows embedding_model article_id section pairs
            (articles_rows @ [[Text article_id, Text section, Text raw_sentence,
                               TokensJson pp_sentence, vector]]) = Inr rows"
      by (auto split: sum.splits)
    have "row_shape embedding_model
        [Text article_id, Text section, Text raw_sentence, TokensJson pp_sentence, vector]"
      using False Cons.prems(3) sentence_vector_null [OF v] by (auto simp: row_shape_def)
    with Cons.prems(2)
    have "\<forall>row \<in> set (articles_rows @ [[Text article_id, Text section, Text raw_sentence,
        TokensJson pp_sentence, vector]]). row_shape embedding_model row"
      by simp
    from Cons.IH [OF rest this Cons.prems(3)] show ?thesis .
  qed
qed

lemma process_section_shape:
  assumes "process_section caps embedding_model stem_words remove_num article_id section data
      articles_rows g = (Inr rows, g')"
    and "\<forall>row \<in> set articles_rows. row_shape embedding_model row"
    and "section \<in> {''title'', ''abstract'', ''body''}"
  shows "\<forall>row \<in> set rows. row_shape embedding_model row"
proof (cases data)
  case None
  with assms(1,2) show ?thesis by (simp add: process_section_def)
next
  case (Some t)
  obtain pp raw where pt: "preprocess_text caps t stem_words remove_num = (pp, raw)"
    by (cases "preprocess_text caps t stem_words remove_num")
  show ?thesis
  proof (cases "length pp > 0")
    case False
    with assms(1,2) Some pt show ?thesis by (simp add: process_section_def)
  next
    case True
    with assms(1) Some pt obtain pairs
      where "emit_rows embedding_model article_id section pairs articles_rows = Inr rows"
      by (auto simp: process_section_def split: prod.splits sum.splits if_splits)
    from emit_rows_shape [OF this assms(2,3)] show ?thesis .
  qed
qed

lemma process_sections_shape:
  assumes "process_sections caps embedding_model stem_words remove_num article_id secs
      articles_rows g = (Inr rows, g')"
    and "\<forall>row \<in> set articles_rows. row_shape embedding_model row"
    and "fst ` set secs \<subseteq> {''title'', ''abstract'', ''body''}"
  shows "\<forall>row \<in> set rows. row_shape embedding_model row"
  using assms
proof (induction secs arbitrary: articles_rows g)
  case Nil
  then show ?case by simp
next
  case (Cons sec secs)
  obtain name data where sec: "sec = (name, data)" by (cases sec)
  from Cons.prems(1) sec obtain rows1 g1
    where one: "process_section caps embedding_model stem_words remove_num article_id name
        data articles_rows g = (Inr rows1, g1)"
      and rest: "process_sections caps embedding_model stem_words remove_num article_id secs
        rows1 g1 = (Inr rows, g')"
    by (auto split: prod.splits sum.splits)
  from Cons.prems(3) sec have s: "name \<in> {''title'', ''abstract'', ''body''}"
    and ss: "fst ` set secs \<subseteq> {''title'', ''abstract'', ''body''}"
    by simp_all
  from process_section_shape [OF one Cons.prems(2) s]
  have "\<forall>row \<in> set rows1. row_shape embedding_model row" .
  from Cons.IH [OF rest this ss] show ?case .
qed

lemma process_articles_shape:
  assumes "process_articles caps embedding_model stem_words remove_num batch articles_rows g
      = (Inr rows, g')"
    and "\<forall>row \<in> set articles_rows. row_shape embedding_model row"
  shows "\<forall>row \<in> set rows. row_shape embedding_model row"
  using assms
proof (induction batch arbitrary: articles_rows g)
  case Nil
  then show ?case by simp
next
  case (Cons article batch)
  obtain article_id article_title article_abstract article_body
    where a: "article = (article_id, article_title, article_abstract, article_body)"
    by (cases article)
  from Cons.prems(1) a obtain rows1 g1
    where one: "process_sections caps embedding_model stem_words remove_num article_id
        (zip [''title'', ''abstract'', ''body'']
             [article_title, article_abstract, article_body]) articles_rows g = (Inr rows1, g1)"
      and rest: "process_articles caps embedding_model stem_words remove_num batch rows1 g1
        = (Inr rows, g')"
    by (auto split: prod.splits sum.splits)
  have "fst ` set (zip [''title'', ''abstract'', ''body'']
      [article_title, article_abstract, article_body]) \<subseteq> {''title'', ''abstract'', ''body''}"
    by simp
  from process_sections_shape [OF one Cons.prems(2) this]
  have "\<forall>row \<in> set rows1. row_shape embedding_model row" .
  from Cons.IH [OF rest this] show ?case .
qed

lemma retry_internal_returned:
  "retry_internal exceptions tries delay backoff f s trace = (Inr (Some r), s', trace') \<Longrightarrow>
     \<exists>s0 s1. f s0 = (Inr r, s1)"
proof (induction tries arbitrary: delay s trace)
  case 0
  then show ?case by simp
next
  case (Suc tries)
  obtain out s1 where fs: "f s = (out, s1)" by (cases "f s")
  show ?case
  proof (cases out)
    case (Inr v)
    with fs Suc.prems have "v = r" by simp
    with fs Inr show ?thesis by blast
  next
    case (Inl e)
    with fs Suc.prems
    have "retry_internal exceptions tries (delay * backoff) backoff f s1
        (trace @ [Raised e, Slept delay]) = (Inr (Some r), s', trace')"
      by (simp split: if_splits)
    from Suc.IH [OF this] show ?thesis .
  qed
qed

text \<open>
  Claim C9. Every row that \<open>pre_process_batch_of_articles\<close> returns has five elements;
  its section name is \<open>title\<close>, \<open>abstract\<close> or \<open>body\<close>; its token list is not empty; and
  its embedding is null exactly when no embedding model was supplied.
\<close>

theorem batch_rows_shape:
  assumes "pre_process_batch_of_articles caps (batch, embedding_model, stem_words, remove_num) g
      = (Inr (Some rows), g', trace)"
  shows "\<forall>row \<in> set rows.
           length row = 5
           \<and> row ! 1 \<in> {Text ''title'', Text ''abstract'', Text ''body''}
           \<and> (\<exists>tokens. row ! 3 = TokensJson tokens \<and> tokens \<noteq> [])
           \<and> (row ! 4 = Null \<longleftrightarrow> embedding_model = None)"
proof -
  from assms obtain g0 g1
    where "batch_rows caps (batch, embedding_model, stem_words, remove_num) g0 = (Inr rows, g1)"
    unfolding pre_process_batch_of_articles_def retry_operational_def
    by (blast dest: retry_internal_returned)
  then have "process_articles caps embedding_model stem_words remove_num batch [] g0
      = (Inr rows, g1)"
    by (simp add: batch_rows_def)
  from process_articles_shape [OF this]
  have "\<forall>row \<in> set rows. row_shape embedding_model row" by simp
  then show ?thesis unfolding row_shape_def .
qed


theorem batch_rows_shape_witness:
  "fst (pre_process_batch_of_articles ascii_nlp
          ([(''a1'', Some ''COVID-19 spreads fast.'', None, None)],
           Some constant_model, False, True) zero_rng)
     = Inr (Some [[Text ''a1'', Text ''title'', Text ''COVID-19 spreads fast.'',
                   TokensJson [''covid'', ''spreads'', ''fast''], VectorJson [1, 2]]])
   \<and> row_shape (Some constant_model)
         [Text ''a1'', Text ''title'', Text ''COVID-19 spreads fast.'',
          TokensJson [''covid'', ''spreads'', ''fast''], VectorJson [1, 2]]"
proof -
  define out where "out = pre_process_batch_of_articles ascii_nlp
      ([(''a1'', Some ''COVID-19 spreads fast.'', None, None)],
       Some constant_model, False, True) zero_rng"
  define row :: "int row" where "row = [Text ''a1'', Text ''title'',
      Text ''COVID-19 spreads fast.'', TokensJson [''covid'', ''spreads'', ''fast''],
      VectorJson [1, 2]]"
  have ev: "fst out = Inr (Some [row])" unfolding out_def row_def by code_simp
  have "out = (fst out, fst (snd out), snd (snd out))" by simp
  then have "out = (Inr (Some [row]), fst (snd out), snd (snd out))"
    unfolding ev .
  from batch_rows_shape [OF this [unfolded out_def]]
  have "row_shape (Some constant_model) row" unfolding row_shape_def by simp
  with ev show ?thesis unfolding out_def row_def by (intro conjI)
qed

lemma emit_rows_model_raises:
  assumes "pp_sentence \<noteq> []" and "model pp_sentence = Inl e"
  shows "emit_rows (Some model) article_id name ((pp_sentence, raw_sentence) # rest)
           articles_rows = Inl e"
  using assms by (simp add: sentence_vector_def)

lemma emit_rows_model_returns_none:
  assumes "pp_sentence \<noteq> []" and "model pp_sentence = Inr None"
  shows "emit_rows (Some model) article_id name ((pp_sentence, raw_sentence) # rest)
           articles_rows = Inl TypeError"
  using assms by (simp add: sentence_vector_def)

text \<open>
  What the one-sided filter of \<open>preprocess_text\<close> does to the rows: for the title
  \<open>It was. Masks work.\<close> the worker stores the tokens of the second sentence beside the
  raw text of the first.
\<close>

lemma batch_row_pairs_wrong_sentence:
  "fst (pre_process_batch_of_articles ascii_nlp
          ([(''a1'', Some ''It was. Masks work.'', None, None)],
           None :: int embedding_model option, False, True) zero_rng)
     = Inr (Some [[Text ''a1'', Text ''title'', Text ''It was.'',
                   TokensJson [''masks'', ''work''], Null]])"
  by code_simp

text \<open>
  Claim C2. The claim asks that a sentence whose embedding cannot be computed is skipped
  and the batch goes on. The call of the model and \<^verbatim>\<open>map(str, ...)\<close> (lines 115 to 118)
  stand before the \<^verbatim>\<open>try\<close> of line 121, whose body cannot raise. With a model that knows
  no word of the title and returns \<^verbatim>\<open>None\<close>, the case that the comment on line 127 names,
  the \<^verbatim>\<open>TypeError\<close> leaves the worker on the first attempt: no row is returned, and the
  decorator does not retry.
\<close>

theorem batch_fails_on_unknown_words:
  "fst (pre_process_batch_of_articles ascii_nlp
          ([(''a1'', Some ''COVID-19 spreads fast.'', None, None)],
           Some unknown_words_model, False, True) zero_rng)
     = Inl TypeError
   \<and> snd (snd (pre_process_batch_of_articles ascii_nlp
          ([(''a1'', Some ''COVID-19 spreads fast.'', None, None)],
           Some unknown_words_model, False, True) zero_rng))
     = [Raised TypeError]"
  by code_simp

section \<open>Properties of the pipeline driver\<close>


text \<open>
  Claim C8. When the store exists and \<open>first_launch\<close> is false, the driver returns
  normally and the only thing it does is print that the store will be used: the trace
  gains no load, no worker run and no insertion, and the databases are untouched. A
  second run on the world the first one left leaves the databases as they were before
  the first.
\<close>

theorem reuse_existing_store:
  assumes "isfile w db_path"
  shows "pre_process_and_vectorize_texts caps workers embedding_model db_path False
           stem_words remove_num batch_size w
         = (None, w\<lparr>events := events w @ [Printed (DbWillBeUsed db_path)]\<rparr>)
       \<and> files (snd (pre_process_and_vectorize_texts caps workers embedding_model db_path False
                        stem_words remove_num batch_size
                        (snd (pre_process_and_vectorize_texts caps workers embedding_model
                                db_path False stem_words remove_num batch_size w))))
         = files w"
proof -
  define w' where "w' = w\<lparr>events := events w @ [Printed (DbWillBeUsed db_path)]\<rparr>"
  have first: "pre_process_and_vectorize_texts caps workers embedding_model db_path False
      stem_words remove_num batch_size w = (None, w')"
    using assms by (simp add: pre_process_and_vectorize_texts_def print_message_def w'_def)
  have "isfile w' db_path" using assms by (simp add: isfile_def w'_def)
  then have second: "pre_process_and_vectorize_texts caps workers embedding_model db_path False
      stem_words remove_num batch_size w'
      = (None, w'\<lparr>events := events w' @ [Printed (DbWillBeUsed db_path)]\<rparr>)"
    by (simp add: pre_process_and_vectorize_texts_def print_message_def)
  have "files (w'\<lparr>events := events w' @ [Printed (DbWillBeUsed db_path)]\<rparr>) = files w"
    by (simp add: w'_def)
  with first second show ?thesis unfolding w'_def by simp
qed

theorem reuse_existing_store_witness:
  "isfile one_article_world ''articles_database.sqlite''
   \<and> fst (pre_process_and_vectorize_texts ascii_nlp in_order_pool (Some constant_model)
            ''articles_database.sqlite'' False False False 1000 one_article_world) = None
   \<and> events (snd (pre_process_and_vectorize_texts ascii_nlp in_order_pool (Some constant_model)
            ''articles_database.sqlite'' False False False 1000 one_article_world))
       = [Printed (DbWillBeUsed ''articles_database.sqlite'')]
   \<and> files (snd (pre_process_and_vectorize_texts ascii_nlp in_order_pool (Some constant_model)
            ''articles_database.sqlite'' False False False 1000 one_article_world))
       = files one_article_world"
proof -
  have h: "isfile one_article_world ''articles_database.sqlite''"
    by (simp add: isfile_def one_article_world_def)
  have e: "events one_article_world = []" by (simp add: one_article_world_def)
  from reuse_existing_store [OF h, of ascii_nlp in_order_pool "Some constant_model" False False 1000]
  have "pre_process_and_vectorize_texts ascii_nlp in_order_pool (Some constant_model)
            ''articles_database.sqlite'' False False False 1000 one_article_world
     = (None, one_article_world\<lparr>events := events one_article_world @
           [Printed (DbWillBeUsed ''articles_database.sqlite'')]\<rparr>)"
    by (rule conjunct1)
  with h e show ?thesis by simp
qed




end
